theory Spec2Isabelle
  imports Complex_Main "HOL-Library.Product_Lexorder" "HOL-Library.AList" "HOL-Library.Multiset"
begin

section \<open>Data model\<close>

text \<open>
  The input documents of the playoff predictor. A standings entry is the dictionary
  \<^verbatim>\<open>{team, played, wins, losses, points, nrr}\<close>; a fixture is \<^verbatim>\<open>{homeTeam, awayTeam}\<close>.
  Python floats are idealised as real numbers and Python integers are unbounded.
\<close>

record team_standing =
  team :: string
  played :: int
  wins :: int
  losses :: int
  points :: int
  nrr :: real

record fixture =
  homeTeam :: string
  awayTeam :: string

record form_record =
  form_teamId :: string
  recentForm :: "string list"

record home_away_split =
  split_teamId :: string
  homeWinRate :: real
  awayWinRate :: real

datatype py_error = KeyError | IndexError | ZeroDivisionError

text \<open>Sequencing of a computation that may raise.\<close>

definition and_then :: "py_error + 'a \<Rightarrow> ('a \<Rightarrow> py_error + 'b) \<Rightarrow> py_error + 'b" where
  "and_then r f = (case r of Inl e \<Rightarrow> Inl e | Inr x \<Rightarrow> f x)"

text \<open>
  \<^verbatim>\<open>sorted(xs, key=lambda x: (x["points"], x["nrr"]), reverse=True)\<close>: the keys are
  compared as tuples (lexicographically), and a reversed sort in Python stays stable: the list
  is reversed, sorted ascending by a stable sort, and reversed again.
\<close>

definition sorted_desc :: "('a \<Rightarrow> int \<times> real) \<Rightarrow> 'a list \<Rightarrow> 'a list" where
  "sorted_desc k xs = rev (sort_key k (rev xs))"

definition rank_key :: "team_standing \<Rightarrow> int \<times> real" where
  "rank_key x = (points x, nrr x)"

section \<open>elo\_calculator.py\<close>

type_synonym ratings = "string \<rightharpoonup> real"

text \<open>\<^verbatim>\<open>ratings[team_id] += x\<close>; a missing key raises.\<close>

definition rating_add :: "ratings \<Rightarrow> string \<Rightarrow> real \<Rightarrow> py_error + ratings" where
  "rating_add r k x = (case r k of None \<Rightarrow> Inl KeyError | Some v \<Rightarrow> Inr (r(k \<mapsto> v + x)))"

text \<open>The first entry of the form data with the team's id, \<^verbatim>\<open>None\<close> when there is none.\<close>

fun find_form :: "form_record list \<Rightarrow> string \<Rightarrow> string list option" where
  "find_form [] team_id = None"
| "find_form (t # ts) team_id =
     (if form_teamId t = team_id then Some (recentForm t) else find_form ts team_id)"

definition weights :: "real list" where
  "weights = [1, 0.8, 0.6, 0.4, 0.2]"

text \<open>The loop over \<^verbatim>\<open>enumerate(form)\<close>, with the index \<open>i\<close> and the running bonus.\<close>

fun form_loop :: "nat \<Rightarrow> string list \<Rightarrow> real \<Rightarrow> real" where
  "form_loop i [] form_bonus = form_bonus"
| "form_loop i (result # rest) form_bonus =
     (if i \<ge> length weights then form_bonus
      else if result = ''W'' then form_loop (Suc i) rest (form_bonus + 10 * weights ! i)
      else if result = ''L'' then form_loop (Suc i) rest (form_bonus - 5 * weights ! i)
      else form_loop (Suc i) rest form_bonus)"

definition calculate_form_bonus :: "form_record list \<Rightarrow> string \<Rightarrow> real" where
  "calculate_form_bonus form_factor team_id =
     (case find_form form_factor team_id of
        None \<Rightarrow> 0
      | Some form \<Rightarrow> if form = [] then 0 else form_loop 0 form 0)"

text \<open>The body of the second loop of \<^verbatim>\<open>_initialize_elo_ratings\<close> for one standings entry.\<close>

definition adjust_rating :: "form_record list \<Rightarrow> team_standing \<Rightarrow> ratings \<Rightarrow> py_error + ratings" where
  "adjust_rating form_factor t r =
     and_then (rating_add r (team t) (real_of_int (points t) * 15)) (\<lambda>r1.
     and_then (rating_add r1 (team t) (nrr t * 50)) (\<lambda>r2.
     and_then (rating_add r2 (team t) (calculate_form_bonus form_factor (team t))) (\<lambda>r3.
       if played t > 0
       then rating_add r3 (team t) ((real_of_int (wins t) / real_of_int (played t) - 0.5) * 100)
       else Inr r3)))"

fun adjust_all :: "form_record list \<Rightarrow> team_standing list \<Rightarrow> ratings \<Rightarrow> py_error + ratings" where
  "adjust_all form_factor [] r = Inr r"
| "adjust_all form_factor (t # ts) r =
     and_then (adjust_rating form_factor t r) (adjust_all form_factor ts)"

text \<open>Every team id of the standings starts at the base rating 1500.\<close>

fun base_ratings :: "team_standing list \<Rightarrow> ratings" where
  "base_ratings [] = Map.empty"
| "base_ratings (t # ts) = (base_ratings ts)(team t \<mapsto> 1500)"

definition initialize_elo_ratings :: "team_standing list \<Rightarrow> form_record list \<Rightarrow> py_error + ratings" where
  "initialize_elo_ratings standings form_factor =
     adjust_all form_factor standings (base_ratings standings)"

definition get_team_rating :: "ratings \<Rightarrow> string \<Rightarrow> real" where
  "get_team_rating r team_id = (case r team_id of Some v \<Rightarrow> v | None \<Rightarrow> 1500)"

text \<open>The scan of the home/away data: the first entry of the home team sets the advantage.\<close>

fun home_advantage_of :: "home_away_split list \<Rightarrow> string \<Rightarrow> real" where
  "home_advantage_of [] home_team = 0"
| "home_advantage_of (t # ts) home_team =
     (if split_teamId t = home_team then (homeWinRate t - 0.5) * 100
      else home_advantage_of ts home_team)"

definition calculate_win_probability ::
  "ratings \<Rightarrow> home_away_split list \<Rightarrow> string \<Rightarrow> string \<Rightarrow> real" where
  "calculate_win_probability r home_away_stats home_team away_team =
     (let home_rating = get_team_rating r home_team;
          away_rating = get_team_rating r away_team;
          home_advantage = home_advantage_of home_away_stats home_team;
          adjusted_home_rating = home_rating + max 30 home_advantage
      in 1 / (1 + 10 powr ((away_rating - adjusted_home_rating) / 400)))"


section \<open>analyzer.py\<close>

record simulation_result =
  qualification_probability :: "(string \<times> real) list"
  position_probability :: "(string \<times> real list) list"

definition find_current_playoff_cutoff :: "team_standing list \<Rightarrow> int option" where
  "find_current_playoff_cutoff standings_list =
     (let sorted_standings = sorted_desc rank_key standings_list
      in if length sorted_standings \<ge> 4 then Some (points (sorted_standings ! 3)) else None)"

text \<open>\<^verbatim>\<open>int(x)\<close> on a float truncates towards zero.\<close>

definition py_int :: "real \<Rightarrow> int" where
  "py_int x = (if x \<ge> 0 then \<lfloor>x\<rfloor> else \<lceil>x\<rceil>)"

text \<open>
  The loop filling \<^verbatim>\<open>fourth_place_probs\<close>: \<^verbatim>\<open>positions[3]\<close> raises on a vector with
  fewer than four entries.
\<close>

fun fourth_place :: "(string \<times> real list) list \<Rightarrow> (string \<times> real) list
    \<Rightarrow> py_error + (string \<times> real) list" where
  "fourth_place [] acc = Inr acc"
| "fourth_place ((team_id, positions) # rest) acc =
     (if length positions > 3
      then fourth_place rest (AList.update team_id (positions ! 3) acc)
      else Inl IndexError)"

fun weighted_loop :: "team_standing list \<Rightarrow> real \<Rightarrow> (string \<times> real) list \<Rightarrow> real \<Rightarrow> real" where
  "weighted_loop standings_list total_prob [] weighted_points = weighted_points"
| "weighted_loop standings_list total_prob ((team_id, prob) # rest) weighted_points =
     (case find (\<lambda>t. team t = team_id) standings_list of
        None \<Rightarrow> weighted_loop standings_list total_prob rest weighted_points
      | Some team_standing \<Rightarrow>
          (let current_points = points team_standing;
               remaining_matches = 14 - played team_standing;
               estimated_additional_points = remaining_matches * 1
           in weighted_loop standings_list total_prob rest
                (weighted_points
                 + real_of_int (current_points + estimated_additional_points) * prob / total_prob)))"

definition calculate_expected_cutoff ::
  "team_standing list \<Rightarrow> simulation_result \<Rightarrow> py_error + int" where
  "calculate_expected_cutoff standings_list results =
     (let sorted_standings = sorted_desc rank_key standings_list;
          current_cutoff = (if length sorted_standings \<ge> 4 then points (sorted_standings ! 3) else 0)
      in if length standings_list = 0 then Inl ZeroDivisionError
         else
           (let remaining_matches_per_team =
                  14 - real (length (filter (\<lambda>t. played t \<noteq> 0) standings_list))
                         / real (length standings_list);
                avg_points_per_team = remaining_matches_per_team * 2 * 0.5
            in and_then (fourth_place (position_probability results) []) (\<lambda>fourth_place_probs.
                 (let total_prob = sum_list (map snd fourth_place_probs)
                  in if total_prob = 0 then Inr (max 14 (current_cutoff + 4))
                     else Inr (max (py_int (weighted_loop standings_list total_prob
                                              fourth_place_probs 0))
                                   (current_cutoff + 2))))))"

section \<open>simulator.py\<close>

text \<open>
  The simulator mutates standings entries in place, so the entries live in a store: the heap
  is the list of all dictionaries allocated so far and a reference is an index into it. The
  world also carries the rating mapping of the rating model and the number of random draws
  made so far.
\<close>

record world =
  heap :: "team_standing list"
  elo_ratings :: ratings
  draws :: nat

text \<open>
  The random generator: the value of the \<open>n\<close>-th draw when it is a call of
  \<^verbatim>\<open>random.random()\<close>, and when it is an integer below a bound (as \<^verbatim>\<open>random.shuffle\<close>
  asks for).
\<close>

record random_source =
  random_at :: "nat \<Rightarrow> real"
  randbelow_at :: "nat \<Rightarrow> nat \<Rightarrow> nat"

record simulator =
  standings :: "nat list"
  schedule :: "fixture list"
  home_away_stats :: "home_away_split list"
  teams :: "string list"

definition random_random :: "random_source \<Rightarrow> world \<Rightarrow> real \<times> world" where
  "random_random rs w = (random_at rs (draws w), w\<lparr>draws := Suc (draws w)\<rparr>)"

text \<open>\<^verbatim>\<open>random.uniform(a, b)\<close> is \<^verbatim>\<open>a + (b - a) * random()\<close>.\<close>

definition random_uniform :: "random_source \<Rightarrow> real \<Rightarrow> real \<Rightarrow> world \<Rightarrow> real \<times> world" where
  "random_uniform rs a b w = (let (u, w') = random_random rs w in (a + (b - a) * u, w'))"




text \<open>\<^verbatim>\<open>round(x, 3)\<close>, ties to the even neighbour.\<close>

definition round3 :: "real \<Rightarrow> real" where
  "round3 x =
     (let y = x * 1000; f = \<lfloor>y\<rfloor>
      in real_of_int (if y - real_of_int f < 1 / 2 then f
                      else if y - real_of_int f > 1 / 2 then f + 1
                      else if even f then f else f + 1) / 1000)"

definition extract_teams :: "team_standing list \<Rightarrow> nat list \<Rightarrow> string list" where
  "extract_teams h standings_refs = map (\<lambda>a. team (h ! a)) standings_refs"

text \<open>The constructor: \<^verbatim>\<open>self.teams\<close> is read off the standings once.\<close>

definition MonteCarloSimulator ::
  "team_standing list \<Rightarrow> nat list \<Rightarrow> fixture list \<Rightarrow> home_away_split list \<Rightarrow> simulator" where
  "MonteCarloSimulator h standings_refs fixtures hs =
     \<lparr>standings = standings_refs, schedule = fixtures, home_away_stats = hs,
      teams = extract_teams h standings_refs\<rparr>"

text \<open>
  \<^verbatim>\<open>copy.deepcopy\<close> of the list of entries: every entry met for the first time is copied into
  a fresh cell, and an entry the list holds twice is copied once (the memo of deepcopy).
\<close>

fun copy_refs :: "'a list \<Rightarrow> (nat \<times> nat) list \<Rightarrow> nat list \<Rightarrow> nat list \<times> 'a list" where
  "copy_refs h memo [] = ([], h)"
| "copy_refs h memo (a # rest) =
     (case map_of memo a of
        Some b \<Rightarrow> (let (bs, h') = copy_refs h memo rest in (b # bs, h'))
      | None \<Rightarrow> (let (bs, h') = copy_refs (h @ [h ! a]) ((a, length h) # memo) rest
                 in (length h # bs, h')))"

definition clone_standings :: "simulator \<Rightarrow> world \<Rightarrow> nat list \<times> world" where
  "clone_standings sim w =
     (let (refs, h') = copy_refs (heap w) [] (standings sim) in (refs, w\<lparr>heap := h'\<rparr>))"

fun update_standings ::
  "random_source \<Rightarrow> nat list \<Rightarrow> string \<Rightarrow> string \<Rightarrow> world \<Rightarrow> world" where
  "update_standings rs [] winner_id loser_id w = w"
| "update_standings rs (a # rest) winner_id loser_id w =
     (let t = heap w ! a
      in if team t = winner_id then
           (let (u, w1) = random_uniform rs 0.05 0.15 w;
                t' = t\<lparr>played := played t + 1, wins := wins t + 1, points := points t + 2,
                       nrr := round3 (nrr t + u)\<rparr>
            in update_standings rs rest winner_id loser_id (w1\<lparr>heap := (heap w1)[a := t']\<rparr>))
         else if team t = loser_id then
           (let (u, w1) = random_uniform rs 0.05 0.15 w;
                t' = t\<lparr>played := played t + 1, losses := losses t + 1,
                       nrr := round3 (nrr t - u)\<rparr>
            in update_standings rs rest winner_id loser_id (w1\<lparr>heap := (heap w1)[a := t']\<rparr>))
         else update_standings rs rest winner_id loser_id w)"


definition simulate_match ::
  "simulator \<Rightarrow> random_source \<Rightarrow> fixture \<Rightarrow> bool \<Rightarrow> world \<Rightarrow> string \<times> world" where
  "simulate_match sim rs match use_elo w =
     (let home_team = homeTeam match;
          away_team = awayTeam match;
          home_win_prob =
            (if use_elo
             then calculate_win_probability (elo_ratings w) (home_away_stats sim) home_team away_team
             else 0.5);
          (u, w1) = random_random rs w
      in if u < home_win_prob then (home_team, w1) else (away_team, w1))"

text \<open>The loop over the schedule of one trial of \<^verbatim>\<open>run_simulation\<close>.\<close>

fun play_schedule ::
  "simulator \<Rightarrow> random_source \<Rightarrow> bool \<Rightarrow> nat list \<Rightarrow> fixture list \<Rightarrow> world \<Rightarrow> world" where
  "play_schedule sim rs use_elo sim_standings [] w = w"
| "play_schedule sim rs use_elo sim_standings (match # rest) w =
     (let (winner, w1) = simulate_match sim rs match use_elo w;
          loser = (if winner = homeTeam match then awayTeam match else homeTeam match)
      in play_schedule sim rs use_elo sim_standings rest
           (update_standings rs sim_standings winner loser w1))"

record tally =
  qualification_count :: "(string \<times> nat) list"
  position_counts :: "(string \<times> nat list) list"

text \<open>
  The loop over \<^verbatim>\<open>enumerate(sorted_standings)\<close>: a rank beyond the end of the counter list
  raises.
\<close>

fun record_positions :: "nat \<Rightarrow> team_standing list \<Rightarrow> tally \<Rightarrow> py_error + tally" where
  "record_positions pos [] c = Inr c"
| "record_positions pos (t # rest) c =
     (let team_id = team t
      in case map_of (position_counts c) team_id of
           None \<Rightarrow> Inl KeyError
         | Some l \<Rightarrow>
             if pos \<ge> length l then Inl IndexError
             else
               (let c1 = c\<lparr>position_counts :=
                             AList.update team_id (l[pos := l ! pos + 1]) (position_counts c)\<rparr>
                in if pos < 4 then
                     (case map_of (qualification_count c1) team_id of
                        None \<Rightarrow> Inl KeyError
                      | Some q \<Rightarrow>
                          record_positions (Suc pos) rest
                            (c1\<lparr>qualification_count :=
                                  AList.update team_id (q + 1) (qualification_count c1)\<rparr>))
                   else record_positions (Suc pos) rest c1))"

text \<open>The trial loop of \<^verbatim>\<open>run_simulation\<close>, with the number of trials still to run.\<close>

fun simulate_trials ::
  "simulator \<Rightarrow> random_source \<Rightarrow> bool \<Rightarrow> nat \<Rightarrow> tally \<Rightarrow> world \<Rightarrow> (py_error + tally) \<times> world" where
  "simulate_trials sim rs use_elo 0 c w = (Inr c, w)"
| "simulate_trials sim rs use_elo (Suc n) c w =
     (let (sim_standings, w1) = clone_standings sim w;
          w2 = play_schedule sim rs use_elo sim_standings (schedule sim) w1;
          sorted_standings = sorted_desc (\<lambda>a. rank_key (heap w2 ! a)) sim_standings
      in case record_positions 0 (map (\<lambda>a. heap w2 ! a) sorted_standings) c of
           Inl e \<Rightarrow> (Inl e, w2)
         | Inr c' \<Rightarrow> simulate_trials sim rs use_elo n c' w2)"

text \<open>The dictionary comprehensions \<^verbatim>\<open>{team: v for team in self.teams}\<close>.\<close>

fun dict_of_keys :: "'v \<Rightarrow> string list \<Rightarrow> (string \<times> 'v) list \<Rightarrow> (string \<times> 'v) list" where
  "dict_of_keys v [] d = d"
| "dict_of_keys v (k # ks) d = dict_of_keys v ks (AList.update k v d)"

text \<open>The final loop: every counter is divided by the number of trials.\<close>

fun probabilities ::
  "string list \<Rightarrow> nat \<Rightarrow> tally \<Rightarrow> simulation_result \<Rightarrow> py_error + simulation_result" where
  "probabilities [] iterations c res = Inr res"
| "probabilities (t # rest) iterations c res =
     (case map_of (qualification_count c) t of
        None \<Rightarrow> Inl KeyError
      | Some q \<Rightarrow>
          if iterations = 0 then Inl ZeroDivisionError
          else
            (case map_of (position_counts c) t of
               None \<Rightarrow> Inl KeyError
             | Some l \<Rightarrow>
                 probabilities rest iterations c
                   (res\<lparr>qualification_probability :=
                          AList.update t (real q / real iterations) (qualification_probability res),
                        position_probability :=
                          AList.update t (map (\<lambda>count. real count / real iterations) l)
                            (position_probability res)\<rparr>)))"

definition initial_tally :: "simulator \<Rightarrow> tally" where
  "initial_tally sim =
     \<lparr>qualification_count = dict_of_keys 0 (teams sim) [],
      position_counts = dict_of_keys [0, 0, 0, 0, 0, 0, 0, 0, 0, 0] (teams sim) []\<rparr>"

definition run_simulation ::
  "simulator \<Rightarrow> random_source \<Rightarrow> nat \<Rightarrow> bool \<Rightarrow> world
     \<Rightarrow> (py_error + simulation_result) \<times> world" where
  "run_simulation sim rs iterations use_elo w =
     (case simulate_trials sim rs use_elo iterations (initial_tally sim) w of
        (Inl e, w') \<Rightarrow> (Inl e, w')
      | (Inr c, w') \<Rightarrow>
          (probabilities (teams sim) iterations c
             \<lparr>qualification_probability = [], position_probability = []\<rparr>, w'))"









section \<open>Reference notions of the specification\<close>


text \<open>The contribution of one recent result with its weight.\<close>

definition spec_result_bonus :: "string \<Rightarrow> real \<Rightarrow> real" where
  "spec_result_bonus result weight =
     (if result = ''W'' then 10 * weight else if result = ''L'' then - (5 * weight) else 0)"

text \<open>
  The form bonus: the sum over the recent-form sequence paired with the weights (the pairing
  stops at the shorter of the two).
\<close>

definition spec_form_bonus :: "string list \<Rightarrow> real" where
  "spec_form_bonus form = (\<Sum>(result, weight) \<leftarrow> zip form weights. spec_result_bonus result weight)"

definition spec_recent_form :: "form_record list \<Rightarrow> string \<Rightarrow> string list" where
  "spec_recent_form form_factor team_id =
     (case find (\<lambda>f. form_teamId f = team_id) form_factor of None \<Rightarrow> [] | Some f \<Rightarrow> recentForm f)"

text \<open>
  A ranking of the standings by (points descending, net run rate descending): any
  rearrangement of the entries whose keys never increase.
\<close>

definition ranking_of :: "team_standing list \<Rightarrow> team_standing list \<Rightarrow> bool" where
  "ranking_of standings_list s \<longleftrightarrow>
     mset s = mset standings_list \<and> sorted_wrt (\<lambda>a b. rank_key a \<ge> rank_key b) s"

text \<open>The current table: the entries behind the simulator's standings, ranked.\<close>

definition current_table :: "simulator \<Rightarrow> world \<Rightarrow> team_standing list" where
  "current_table sim w = sorted_desc rank_key (map (\<lambda>a. heap w ! a) (standings sim))"


text \<open>Every reference of the standings points into the store.\<close>

definition valid_refs :: "simulator \<Rightarrow> world \<Rightarrow> bool" where
  "valid_refs sim w \<longleftrightarrow> (\<forall>a \<in> set (standings sim). a < length (heap w))"

text \<open>The sum over all teams of the counter (or probability) at one position index.\<close>

definition position_total :: "nat \<Rightarrow> (string \<times> 'a::comm_monoid_add list) list \<Rightarrow> 'a" where
  "position_total p d = (\<Sum>(team_id, l) \<leftarrow> d. l ! p)"

text \<open>
  The initial rating as the specification words it: the win percentage counts as 0 when no
  match has been played.
\<close>

definition spec_initial_rating :: "form_record list \<Rightarrow> team_standing \<Rightarrow> real" where
  "spec_initial_rating form_factor t =
     (let winPct = (if played t = 0 then 0 else real_of_int (wins t) / real_of_int (played t))
      in 1500 + real_of_int (points t) * 15 + nrr t * 50
           + spec_form_bonus (spec_recent_form form_factor (team t)) + (winPct - 0.5) * 100)"

text \<open>The win-percentage term the rating model adds for an entry with matches played.\<close>

definition win_adjustment :: "team_standing \<Rightarrow> real" where
  "win_adjustment t =
     (if played t > 0 then (real_of_int (wins t) / real_of_int (played t) - 0.5) * 100 else 0)"

text \<open>A sample table of five teams.\<close>

definition t1 :: team_standing where "t1 = \<lparr>team = ''GT'', played = 10, wins = 7, losses = 3, points = 14, nrr = 0.5\<rparr>"

definition t2 :: team_standing where "t2 = \<lparr>team = ''CSK'', played = 10, wins = 6, losses = 4, points = 12, nrr = 0.3\<rparr>"

definition t3 :: team_standing where "t3 = \<lparr>team = ''MI'', played = 10, wins = 6, losses = 4, points = 12, nrr = 0.1\<rparr>"

definition t4 :: team_standing where "t4 = \<lparr>team = ''RCB'', played = 10, wins = 5, losses = 5, points = 10, nrr = 0.2\<rparr>"

definition t5 :: team_standing where "t5 = \<lparr>team = ''KKR'', played = 10, wins = 4, losses = 6, points = 8, nrr = -0.4\<rparr>"

text \<open>What the rating model adds to the base rating for one standings entry.\<close>

definition rating_adjustment :: "form_record list \<Rightarrow> team_standing \<Rightarrow> real" where
  "rating_adjustment ff t =
     real_of_int (points t) * 15 + nrr t * 50 + spec_form_bonus (spec_recent_form ff (team t))
       + win_adjustment t"

text \<open>A team that has not played yet.\<close>

definition newcomer :: team_standing where
  "newcomer = \<lparr>team = ''LSG'', played = 0, wins = 0, losses = 0, points = 0, nrr = 0\<rparr>"

text \<open>
  The memo of a copy in progress: every entry already copied has its copy in the store, equal
  to the original.
\<close>

definition memo_ok :: "'a list \<Rightarrow> (nat \<times> nat) list \<Rightarrow> bool" where
  "memo_ok h memo \<longleftrightarrow> (\<forall>(a, b) \<in> set memo. a < length h \<and> b < length h \<and> h ! b = h ! a)"

text \<open>
  The frame of a run: the first \<open>n\<close> cells of the store are as before, nothing is
  deallocated, and the rating mapping is the same.
\<close>

definition frame :: "nat \<Rightarrow> world \<Rightarrow> world \<Rightarrow> bool" where
  "frame n w w' \<longleftrightarrow>
     (\<forall>i < n. heap w' ! i = heap w ! i) \<and> length (heap w) \<le> length (heap w')
     \<and> elo_ratings w' = elo_ratings w"

text \<open>What a loop of updates over a trial's references leaves alone.\<close>

definition touches_only :: "nat list \<Rightarrow> world \<Rightarrow> world \<Rightarrow> bool" where
  "touches_only refs w w' \<longleftrightarrow>
     length (heap w') = length (heap w) \<and> elo_ratings w' = elo_ratings w
     \<and> (\<forall>i. i \<notin> set refs \<longrightarrow> heap w' ! i = heap w ! i)
     \<and> (\<forall>i < length (heap w). team (heap w' ! i) = team (heap w ! i))"

text \<open>A counter dictionary holds exactly the teams of the simulator, each once.\<close>

definition keys_ok :: "string list \<Rightarrow> (string \<times> 'v) list \<Rightarrow> bool" where
  "keys_ok K d \<longleftrightarrow> distinct (map fst d) \<and> set (map fst d) = set K"

text \<open>The counters of a run: one entry per team, and ten position counters for each.\<close>

definition tally_ok :: "string list \<Rightarrow> tally \<Rightarrow> bool" where
  "tally_ok K c \<longleftrightarrow>
     keys_ok K (qualification_count c) \<and> keys_ok K (position_counts c)
     \<and> (\<forall>k l. map_of (position_counts c) k = Some l \<longrightarrow> length l = 10)"

text \<open>One round of the recording loop, as a function of the tally.\<close>

definition bump :: "nat \<Rightarrow> string \<Rightarrow> tally \<Rightarrow> tally" where
  "bump pos k c =
     c\<lparr>position_counts :=
         AList.update k ((the (map_of (position_counts c) k))
                           [pos := the (map_of (position_counts c) k) ! pos + 1])
           (position_counts c),
       qualification_count :=
         (if pos < 4
          then AList.update k (the (map_of (qualification_count c) k) + 1) (qualification_count c)
          else qualification_count c)\<rparr>"

text \<open>
  A store holding the sample table, a random source whose every draw is 0, and two simulators
  over that table: one without remaining fixtures, one with a single remaining fixture.
\<close>

definition world5 :: world where
  "world5 = \<lparr>heap = [t4, t5, t3, t1, t2], elo_ratings = Map.empty, draws = 0\<rparr>"

definition fixed_source :: random_source where
  "fixed_source = \<lparr>random_at = (\<lambda>n. 0), randbelow_at = (\<lambda>n m. 0)\<rparr>"

definition league5 :: simulator where
  "league5 = MonteCarloSimulator (heap world5) [0, 1, 2, 3, 4] [] []"

definition league5_fixture :: simulator where
  "league5_fixture = MonteCarloSimulator (heap world5) [0, 1, 2, 3, 4]
     [\<lparr>homeTeam = ''KKR'', awayTeam = ''GT''\<rparr>] []"

text \<open>The result and the counters of one trial on the sample table without fixtures.\<close>

definition simulated5 :: simulation_result where
  "simulated5 =
     \<lparr>qualification_probability =
        [(''RCB'', 1), (''KKR'', 0), (''MI'', 1), (''GT'', 1), (''CSK'', 1)],
      position_probability =
        [(''RCB'', [0, 0, 0, 1, 0, 0, 0, 0, 0, 0]), (''KKR'', [0, 0, 0, 0, 1, 0, 0, 0, 0, 0]),
         (''MI'', [0, 0, 1, 0, 0, 0, 0, 0, 0, 0]), (''GT'', [1, 0, 0, 0, 0, 0, 0, 0, 0, 0]),
         (''CSK'', [0, 1, 0, 0, 0, 0, 0, 0, 0, 0])]\<rparr>"








section \<open>The rating model\<close>








section \<open>The tie-break sort\<close>

lemma sort_map_key: "map k (sort_key k xs) = sort (map k xs)"
  by (rule properties_for_sort [symmetric]) simp_all

lemma sort_rev: "sort (rev xs) = sort xs"
  by (rule properties_for_sort) simp_all

lemma sorted_desc_keys: "map k (sorted_desc k xs) = rev (sort (map k xs))"
  by (simp add: sorted_desc_def rev_map sort_map_key sort_rev flip: rev_map)

lemma mset_sorted_desc: "mset (sorted_desc k xs) = mset xs"
  by (simp add: sorted_desc_def)

lemma length_sorted_desc: "length (sorted_desc k xs) = length xs"
  by (simp add: sorted_desc_def)


lemma sorted_desc_sorted: "sorted_wrt (\<lambda>a b. k a \<ge> k b) (sorted_desc k xs)"
proof -
  have "sorted (map k (sort_key k (rev xs)))" by simp
  then have "sorted_wrt (\<lambda>a b. k a \<le> k b) (sort_key k (rev xs))"
    by (simp add: sorted_wrt_map)
  then show ?thesis by (simp add: sorted_desc_def sorted_wrt_rev)
qed

lemma ranking_of_sorted_desc: "ranking_of st (sorted_desc rank_key st)"
  by (simp add: ranking_of_def mset_sorted_desc sorted_desc_sorted)

lemma ranking_keys:
  assumes "ranking_of st s"
  shows "map rank_key s = rev (sort (map rank_key st))"
proof -
  from assms have m: "mset s = mset st"
    and s: "sorted_wrt (\<lambda>a b. rank_key a \<ge> rank_key b) s"
    by (simp_all add: ranking_of_def)
  from s have "sorted (rev (map rank_key s))"
    by (simp add: sorted_wrt_rev sorted_wrt_map)
  moreover from m have "mset (rev (map rank_key s)) = mset (map rank_key st)"
    by simp
  ultimately have "sort (map rank_key st) = rev (map rank_key s)"
    by (rule properties_for_sort [rotated])
  then show ?thesis by simp
qed

lemma ranking_same_points:
  assumes "ranking_of st s" and "i < length st"
  shows "points (s ! i) = points (sorted_desc rank_key st ! i)"
proof -
  from assms(1) have l: "length s = length st"
    by (metis ranking_of_def size_mset)
  have "map rank_key s = map rank_key (sorted_desc rank_key st)"
    using ranking_keys [OF assms(1)] by (simp add: sorted_desc_keys)
  then have "map rank_key s ! i = map rank_key (sorted_desc rank_key st) ! i" by simp
  with assms(2) l have "rank_key (s ! i) = rank_key (sorted_desc rank_key st ! i)"
    by (simp add: length_sorted_desc)
  then show ?thesis by (simp add: rank_key_def)
qed

section \<open>The analyzer\<close>

text \<open>
  C7: \<open>find_current_playoff_cutoff\<close> returns the points of the entry ranked 4th in the
  given standings under (points descending, net run rate descending), whichever ranking of
  the entries is taken, and returns \<open>None\<close> when the standings hold fewer than four
  entries; no index is read out of range.
\<close>

theorem current_cutoff_is_fourth:
  "(length st < 4 \<longrightarrow> find_current_playoff_cutoff st = None)
   \<and> ranking_of st (sorted_desc rank_key st)
   \<and> (\<forall>s. ranking_of st s \<and> length st \<ge> 4
         \<longrightarrow> find_current_playoff_cutoff st = Some (points (s ! 3)))"
proof (intro conjI allI impI)
  show "find_current_playoff_cutoff st = None" if "length st < 4"
    using that by (simp add: find_current_playoff_cutoff_def length_sorted_desc)
  show "ranking_of st (sorted_desc rank_key st)" by (rule ranking_of_sorted_desc)
  show "find_current_playoff_cutoff st = Some (points (s ! 3))"
    if "ranking_of st s \<and> length st \<ge> 4" for s
    using that ranking_same_points [of st s 3]
    by (simp add: find_current_playoff_cutoff_def length_sorted_desc)
qed

theorem current_cutoff_is_fourth_witness:
  "ranking_of [t4, t5, t3, t1, t2] [t1, t2, t3, t4, t5]
   \<and> find_current_playoff_cutoff [t4, t5, t3, t1, t2] = Some 10
   \<and> find_current_playoff_cutoff [t4, t5, t3] = None"
proof -
  have r: "ranking_of [t4, t5, t3, t1, t2] [t1, t2, t3, t4, t5]"
    by (simp add: ranking_of_def rank_key_def t1_def t2_def t3_def t4_def t5_def)
  have p: "points ([t1, t2, t3, t4, t5] ! 3) = 10" by (simp add: t4_def)
  from r p current_cutoff_is_fourth [of "[t4, t5, t3, t1, t2]"]
    current_cutoff_is_fourth [of "[t4, t5, t3]"]
  show ?thesis by simp
qed

text \<open>
  C9: on empty standings and an empty result the total mass of finishing 4th is 0, and
  \<open>calculate_expected_cutoff\<close> raises \<open>ZeroDivisionError\<close> (the division by the
  number of standings entries comes before the fallback).
\<close>

theorem expected_cutoff_empty_standings:
  "position_total 3 (position_probability \<lparr>qualification_probability = [], position_probability = []\<rparr>) = (0::real)
   \<and> calculate_expected_cutoff [] \<lparr>qualification_probability = [], position_probability = []\<rparr>
       = Inl ZeroDivisionError"
  by (simp add: position_total_def calculate_expected_cutoff_def)

text \<open>
  On non-empty standings the fallback and the floor are as described: \<open>max 14 (cutoff + 4)\<close>
  for a total mass of 0, and otherwise the truncated weighted estimate floored to
  \<open>cutoff + 2\<close>.
\<close>

lemma expected_cutoff_nonempty:
  assumes "st \<noteq> []" and "fourth_place (position_probability res) [] = Inr fp"
  shows "calculate_expected_cutoff st res =
     Inr (let current_cutoff = (case find_current_playoff_cutoff st of Some c \<Rightarrow> c | None \<Rightarrow> 0);
              total_prob = sum_list (map snd fp)
          in if total_prob = 0 then max 14 (current_cutoff + 4)
             else max (py_int (weighted_loop st total_prob fp 0)) (current_cutoff + 2))"
  using assms
  by (simp add: calculate_expected_cutoff_def find_current_playoff_cutoff_def Let_def and_then_def)

section \<open>The initial ratings\<close>

lemma find_form_eq: "find_form ff t = map_option recentForm (find (\<lambda>f. form_teamId f = t) ff)"
  by (induction ff) simp_all

lemma form_loop_sum:
  "form_loop i form acc
     = acc + (\<Sum>(result, weight) \<leftarrow> zip form (drop i weights). spec_result_bonus result weight)"
proof (induction form arbitrary: i acc)
  case Nil
  then show ?case by simp
next
  case (Cons result rest)
  show ?case
  proof (cases "i \<ge> length weights")
    case True
    then show ?thesis by simp
  next
    case False
    then have d: "drop i weights = weights ! i # drop (Suc i) weights"
      by (simp add: Cons_nth_drop_Suc)
    from False show ?thesis
      by (simp add: Cons.IH d spec_result_bonus_def)
  qed
qed

lemma calculate_form_bonus_spec:
  "calculate_form_bonus ff t = spec_form_bonus (spec_recent_form ff t)"
  by (cases "find (\<lambda>f. form_teamId f = t) ff")
     (simp_all add: calculate_form_bonus_def find_form_eq spec_recent_form_def
        spec_form_bonus_def form_loop_sum)

lemma adjust_rating_present:
  assumes "r (team t) = Some v"
  shows "adjust_rating ff t r = Inr (r(team t \<mapsto> v + rating_adjustment ff t))"
  using assms
  by (simp add: adjust_rating_def rating_add_def and_then_def calculate_form_bonus_spec
      rating_adjustment_def win_adjustment_def algebra_simps)

lemma adjust_all_distinct:
  assumes "distinct (map team ts)" and "\<forall>t \<in> set ts. r (team t) \<noteq> None"
  shows "\<exists>r'. adjust_all ff ts r = Inr r'
           \<and> (\<forall>k. k \<notin> team ` set ts \<longrightarrow> r' k = r k)
           \<and> (\<forall>t \<in> set ts. r' (team t) = map_option (\<lambda>v. v + rating_adjustment ff t) (r (team t)))"
  using assms
proof (induction ts arbitrary: r)
  case Nil
  then show ?case by simp
next
  case (Cons t ts)
  from Cons.prems(2) obtain v where v: "r (team t) = Some v" by auto
  let ?r1 = "r(team t \<mapsto> v + rating_adjustment ff t)"
  have a: "adjust_rating ff t r = Inr ?r1" using v by (rule adjust_rating_present)
  from Cons.prems have d: "distinct (map team ts)" and n: "team t \<notin> team ` set ts"
    and p: "\<forall>u \<in> set ts. ?r1 (team u) \<noteq> None"
    by auto
  from Cons.IH [OF d p] obtain r' where r': "adjust_all ff ts ?r1 = Inr r'"
    and o: "\<forall>k. k \<notin> team ` set ts \<longrightarrow> r' k = ?r1 k"
    and i: "\<forall>u \<in> set ts. r' (team u) = map_option (\<lambda>v. v + rating_adjustment ff u) (?r1 (team u))"
    by blast
  have "adjust_all ff (t # ts) r = Inr r'" by (simp add: a r' and_then_def)
  moreover have "\<forall>k. k \<notin> team ` set (t # ts) \<longrightarrow> r' k = r k" using o by simp
  moreover have "\<forall>u \<in> set (t # ts). r' (team u) = map_option (\<lambda>v. v + rating_adjustment ff u) (r (team u))"
  proof
    fix u assume u: "u \<in> set (t # ts)"
    show "r' (team u) = map_option (\<lambda>v. v + rating_adjustment ff u) (r (team u))"
    proof (cases "u = t")
      case True
      with o n v show ?thesis by simp
    next
      case False
      with u have m: "u \<in> set ts" by simp
      with n have "team u \<noteq> team t" by (metis imageI)
      with i m show ?thesis by simp
    qed
  qed
  ultimately show ?case by blast
qed

lemma base_ratings_present: "t \<in> set st \<Longrightarrow> base_ratings st (team t) = Some 1500"
  by (induction st) auto

text \<open>
  C4 (as amended): with one standings entry per team, the initial rating of every team of the
  standings is \<open>1500 + points * 15 + nrr * 50 + formBonus\<close> plus the win-percentage term
  \<open>(wins / played - 0.5) * 100\<close>, which is added only when \<open>played > 0\<close>; the form bonus
  is the weighted sum over the recent-form sequence (+10 per weight for a win, -5 for a loss,
  0 otherwise).
\<close>

theorem initial_rating_formula:
  assumes "distinct (map team st)" and "t \<in> set st"
  shows "\<exists>r. initialize_elo_ratings st ff = Inr r
     \<and> r (team t) = Some (1500 + real_of_int (points t) * 15 + nrr t * 50
          + spec_form_bonus (spec_recent_form ff (team t))
          + (if played t > 0
             then (real_of_int (wins t) / real_of_int (played t) - 0.5) * 100 else 0))"
proof -
  have p: "\<forall>u \<in> set st. base_ratings st (team u) \<noteq> None"
    by (simp add: base_ratings_present)
  from adjust_all_distinct [OF assms(1) p, of ff] obtain r
    where r: "adjust_all ff st (base_ratings st) = Inr r"
      and i: "\<forall>u \<in> set st. r (team u)
          = map_option (\<lambda>v. v + rating_adjustment ff u) (base_ratings st (team u))"
    by blast
  from i assms(2) have "r (team t) = Some (1500 + rating_adjustment ff t)"
    by (simp add: base_ratings_present)
  with r show ?thesis
    by (simp add: initialize_elo_ratings_def rating_adjustment_def win_adjustment_def algebra_simps)
qed

theorem initial_rating_formula_witness:
  "\<exists>r. initialize_elo_ratings [t1, t2] [\<lparr>form_teamId = ''CSK'', recentForm = [''W'', ''L'', ''N'']\<rparr>] = Inr r
     \<and> r ''CSK'' = Some 1711"
  using initial_rating_formula [of "[t1, t2]" t2 "[\<lparr>form_teamId = ''CSK'', recentForm = [''W'', ''L'', ''N'']\<rparr>]"]
  by (simp add: t1_def t2_def spec_form_bonus_def spec_recent_form_def spec_result_bonus_def weights_def)

text \<open>
  For a team with no match played the code leaves the win-percentage term out (rating 1500),
  where the formula with a win percentage of 0 gives 1450.
\<close>

theorem initial_rating_unplayed_counterexample:
  "initialize_elo_ratings [newcomer] [] = Inr [''LSG'' \<mapsto> 1500]
   \<and> spec_initial_rating [] newcomer = 1450"
  by (simp add: initialize_elo_ratings_def adjust_rating_def rating_add_def and_then_def
      calculate_form_bonus_def newcomer_def spec_initial_rating_def spec_form_bonus_def
      spec_recent_form_def)

section \<open>The store: copies and updates\<close>

lemma frame_refl: "frame n w w"
  by (simp add: frame_def)

lemma frame_trans: "frame n w w1 \<Longrightarrow> frame n w1 w2 \<Longrightarrow> frame n w w2"
  by (auto simp: frame_def)

lemma memo_ok_extend:
  assumes "memo_ok h memo" and "a < length h"
  shows "memo_ok (h @ [h ! a]) ((a, length h) # memo)"
  using assms by (auto simp: memo_ok_def nth_append)

lemma copy_refs_extends:
  "copy_refs h memo refs = (bs, h') \<Longrightarrow> length h \<le> length h' \<and> (\<forall>i < length h. h' ! i = h ! i)"
proof (induction refs arbitrary: h memo bs h')
  case Nil
  then show ?case by simp
next
  case (Cons a rest)
  show ?case
  proof (cases "map_of memo a")
    case None
    obtain bs1 h1 where r: "copy_refs (h @ [h ! a]) ((a, length h) # memo) rest = (bs1, h1)"
      by (cases "copy_refs (h @ [h ! a]) ((a, length h) # memo) rest")
    with Cons.prems None have h': "h' = h1" by simp
    from Cons.IH [OF r] have "length (h @ [h ! a]) \<le> length h1"
      and "\<forall>i < length (h @ [h ! a]). h1 ! i = (h @ [h ! a]) ! i" by simp_all
    then show ?thesis by (auto simp: h' nth_append)
  next
    case (Some b)
    obtain bs1 h1 where r: "copy_refs h memo rest = (bs1, h1)"
      by (cases "copy_refs h memo rest")
    with Cons.prems Some have h': "h' = h1" by simp
    from Cons.IH [OF r] show ?thesis by (simp add: h')
  qed
qed

lemma copy_refs_values:
  assumes "copy_refs h memo refs = (bs, h')" and "memo_ok h memo" and "\<forall>a \<in> set refs. a < length h"
  shows "map (\<lambda>b. h' ! b) bs = map (\<lambda>a. h ! a) refs \<and> (\<forall>b \<in> set bs. b < length h')"
  using assms
proof (induction refs arbitrary: h memo bs h')
  case Nil
  then show ?case by simp
next
  case (Cons a rest)
  from Cons.prems(3) have a: "a < length h" and rest: "\<forall>x \<in> set rest. x < length h" by simp_all
  show ?case
  proof (cases "map_of memo a")
    case None
    obtain bs1 h1 where r: "copy_refs (h @ [h ! a]) ((a, length h) # memo) rest = (bs1, h1)"
      by (cases "copy_refs (h @ [h ! a]) ((a, length h) # memo) rest")
    with Cons.prems(1) None have e: "bs = length h # bs1" "h' = h1" by simp_all
    have m: "memo_ok (h @ [h ! a]) ((a, length h) # memo)"
      by (rule memo_ok_extend [OF Cons.prems(2) a])
    from rest have v: "\<forall>x \<in> set rest. x < length (h @ [h ! a])" by auto
    from Cons.IH [OF r m v]
    have i: "map (\<lambda>b. h1 ! b) bs1 = map (\<lambda>x. (h @ [h ! a]) ! x) rest"
      and l: "\<forall>b \<in> set bs1. b < length h1" by simp_all
    from rest have i2: "map (\<lambda>x. (h @ [h ! a]) ! x) rest = map (\<lambda>x. h ! x) rest"
      by (simp add: nth_append)
    from copy_refs_extends [OF r] have x: "length h < length h1" "h1 ! length h = h ! a"
      by (auto simp: nth_append)
    from i i2 l x show ?thesis by (simp add: e)
  next
    case (Some b)
    obtain bs1 h1 where r: "copy_refs h memo rest = (bs1, h1)"
      by (cases "copy_refs h memo rest")
    with Cons.prems(1) Some have e: "bs = b # bs1" "h' = h1" by simp_all
    from Some have "(a, b) \<in> set memo" by (rule map_of_SomeD)
    with Cons.prems(2) have b: "b < length h" "h ! b = h ! a" by (auto simp: memo_ok_def)
    from copy_refs_extends [OF r] b have x: "b < length h1" "h1 ! b = h ! a" by auto
    from Cons.IH [OF r Cons.prems(2) rest] x show ?thesis by (simp add: e)
  qed
qed

lemma copy_refs_fresh:
  assumes "copy_refs h memo refs = (bs, h')" and "n \<le> length h" and "\<forall>(a, b) \<in> set memo. n \<le> b"
  shows "\<forall>b \<in> set bs. n \<le> b"
  using assms
proof (induction refs arbitrary: h memo bs h')
  case Nil
  then show ?case by simp
next
  case (Cons a rest)
  show ?case
  proof (cases "map_of memo a")
    case None
    obtain bs1 h1 where r: "copy_refs (h @ [h ! a]) ((a, length h) # memo) rest = (bs1, h1)"
      by (cases "copy_refs (h @ [h ! a]) ((a, length h) # memo) rest")
    with Cons.prems(1) None have e: "bs = length h # bs1" by simp
    from Cons.prems(2) have n: "n \<le> length (h @ [h ! a])" by simp
    from Cons.prems(2,3) have m: "\<forall>(x, y) \<in> set ((a, length h) # memo). n \<le> y" by simp
    from Cons.IH [OF r n m] Cons.prems(2) show ?thesis by (simp add: e)
  next
    case (Some b)
    obtain bs1 h1 where r: "copy_refs h memo rest = (bs1, h1)"
      by (cases "copy_refs h memo rest")
    with Cons.prems(1) Some have e: "bs = b # bs1" by simp
    from Some have "(a, b) \<in> set memo" by (rule map_of_SomeD)
    with Cons.prems(3) have "n \<le> b" by auto
    with Cons.IH [OF r Cons.prems(2,3)] show ?thesis by (simp add: e)
  qed
qed

lemma clone_standings_props:
  assumes "clone_standings sim w = (refs, w1)" and "valid_refs sim w"
  shows "frame (length (heap w)) w w1"
    and "draws w1 = draws w"
    and "map (\<lambda>b. heap w1 ! b) refs = map (\<lambda>a. heap w ! a) (standings sim)"
    and "\<forall>b \<in> set refs. length (heap w) \<le> b \<and> b < length (heap w1)"
proof -
  obtain bs h' where c: "copy_refs (heap w) [] (standings sim) = (bs, h')"
    by (cases "copy_refs (heap w) [] (standings sim)")
  with assms(1) have e: "refs = bs" "w1 = w\<lparr>heap := h'\<rparr>"
    by (simp_all add: clone_standings_def)
  from copy_refs_extends [OF c] show "frame (length (heap w)) w w1"
    by (simp add: frame_def e)
  show "draws w1 = draws w" by (simp add: e)
  have m: "memo_ok (heap w) []" by (simp add: memo_ok_def)
  from assms(2) have v: "\<forall>a \<in> set (standings sim). a < length (heap w)"
    by (simp add: valid_refs_def)
  from copy_refs_values [OF c m v]
  show "map (\<lambda>b. heap w1 ! b) refs = map (\<lambda>a. heap w ! a) (standings sim)"
    by (simp add: e)
  from copy_refs_values [OF c m v] copy_refs_fresh [OF c, of "length (heap w)"]
  show "\<forall>b \<in> set refs. length (heap w) \<le> b \<and> b < length (heap w1)"
    by (simp add: e)
qed

lemma touches_only_refl: "touches_only refs w w"
  by (simp add: touches_only_def)

lemma touches_only_trans:
  "touches_only refs w w1 \<Longrightarrow> touches_only refs w1 w2 \<Longrightarrow> touches_only refs w w2"
  by (auto simp: touches_only_def)

lemma touches_only_mono:
  "touches_only refs w w' \<Longrightarrow> set refs \<subseteq> set refs' \<Longrightarrow> touches_only refs' w w'"
  by (auto simp: touches_only_def)

lemma touches_only_draw:
  "random_uniform rs a b w = (u, w1) \<Longrightarrow> touches_only refs w w1"
  by (auto simp: random_uniform_def random_random_def touches_only_def Let_def)

lemma touches_only_write:
  assumes "team t' = team (heap w ! a)"
  shows "touches_only (a # rest) w (w\<lparr>heap := (heap w)[a := t']\<rparr>)"
proof (cases "a < length (heap w)")
  case True
  with assms show ?thesis by (auto simp: touches_only_def nth_list_update)
next
  case False
  then show ?thesis by (simp add: touches_only_def)
qed

lemma update_standings_touches:
  "touches_only refs w (update_standings rs refs winner_id loser_id w)"
proof (induction refs arbitrary: w)
  case Nil
  show ?case by (simp add: touches_only_refl)
next
  case (Cons a rest)
  obtain u w1 where d: "random_uniform rs 0.05 0.15 w = (u, w1)"
    by (cases "random_uniform rs 0.05 0.15 w")
  have d1: "touches_only (a # rest) w w1" by (rule touches_only_draw [OF d])
  then have hw: "heap w1 ! a = heap w ! a \<or> a \<in> set (a # rest)" by simp
  from d have hh: "heap w1 = heap w"
    by (auto simp: random_uniform_def random_random_def Let_def)
  have step: "touches_only (a # rest) w (update_standings rs rest winner_id loser_id w2)"
    if "touches_only (a # rest) w w2" for w2
  proof -
    have "touches_only (a # rest) w2 (update_standings rs rest winner_id loser_id w2)"
      by (rule touches_only_mono [OF Cons.IH]) auto
    with that show ?thesis by (rule touches_only_trans)
  qed
  let ?t = "heap w ! a"
  show ?case
  proof (cases "team ?t = winner_id")
    case True
    let ?t' = "?t\<lparr>played := played ?t + 1, wins := wins ?t + 1, points := points ?t + 2,
                   nrr := round3 (nrr ?t + u)\<rparr>"
    have "touches_only (a # rest) w1 (w1\<lparr>heap := (heap w1)[a := ?t']\<rparr>)"
      by (rule touches_only_write) (simp add: hh)
    with d1 have "touches_only (a # rest) w (w1\<lparr>heap := (heap w1)[a := ?t']\<rparr>)"
      by (rule touches_only_trans)
    from step [OF this] True d show ?thesis by (simp add: Let_def)
  next
    case False
    show ?thesis
    proof (cases "team ?t = loser_id")
      case True
      let ?t' = "?t\<lparr>played := played ?t + 1, losses := losses ?t + 1,
                     nrr := round3 (nrr ?t - u)\<rparr>"
      have "touches_only (a # rest) w1 (w1\<lparr>heap := (heap w1)[a := ?t']\<rparr>)"
        by (rule touches_only_write) (simp add: hh)
      with d1 have "touches_only (a # rest) w (w1\<lparr>heap := (heap w1)[a := ?t']\<rparr>)"
        by (rule touches_only_trans)
      from step [OF this] True False d show ?thesis by (simp add: Let_def)
    next
      case False
      with \<open>team ?t \<noteq> winner_id\<close> step [OF touches_only_refl] show ?thesis
        by (simp add: Let_def)
    qed
  qed
qed

lemma simulate_match_world:
  "snd (simulate_match sim rs match use_elo w) = w\<lparr>draws := Suc (draws w)\<rparr>"
  by (simp add: simulate_match_def random_random_def Let_def)

lemma simulate_match_touches:
  assumes "simulate_match sim rs match use_elo w = (winner, w1)"
  shows "touches_only refs w w1"
proof -
  from assms simulate_match_world [of sim rs match use_elo w]
  have "w1 = w\<lparr>draws := Suc (draws w)\<rparr>" by simp
  then show ?thesis by (simp add: touches_only_def)
qed

lemma play_schedule_touches:
  "touches_only refs w (play_schedule sim rs use_elo refs fixtures w)"
proof (induction fixtures arbitrary: w)
  case Nil
  show ?case by (simp add: touches_only_refl)
next
  case (Cons match rest)
  obtain winner w1 where m: "simulate_match sim rs match use_elo w = (winner, w1)"
    by (cases "simulate_match sim rs match use_elo w")
  define loser where "loser = (if winner = homeTeam match then awayTeam match else homeTeam match)"
  define w2 where "w2 = update_standings rs refs winner loser w1"
  have e: "play_schedule sim rs use_elo refs (match # rest) w
             = play_schedule sim rs use_elo refs rest w2"
    by (simp add: m loser_def w2_def)
  have a: "touches_only refs w w1" by (rule simulate_match_touches [OF m])
  have b: "touches_only refs w1 w2" unfolding w2_def by (rule update_standings_touches)
  have c: "touches_only refs w2 (play_schedule sim rs use_elo refs rest w2)" by (rule Cons.IH)
  show ?case unfolding e
    by (rule touches_only_trans [OF touches_only_trans [OF a b] c])
qed

lemma touches_only_frame:
  assumes "touches_only refs w w'" and "\<forall>b \<in> set refs. n \<le> b"
  shows "frame n w w'"
proof -
  have "heap w' ! i = heap w ! i" if "i < n" for i
  proof -
    from that assms(2) have "i \<notin> set refs" by (metis not_le)
    with assms(1) show ?thesis by (simp add: touches_only_def)
  qed
  with assms(1) show ?thesis by (simp add: touches_only_def frame_def)
qed

section \<open>The counters\<close>

lemma keys_ok_lookup: "keys_ok K d \<Longrightarrow> k \<in> set K \<Longrightarrow> \<exists>v. map_of d k = Some v"
  by (metis keys_ok_def map_of_eq_None_iff not_Some_eq set_map)

lemma keys_ok_update:
  assumes "keys_ok K d" and "k \<in> set K"
  shows "keys_ok K (AList.update k v d)" and "map fst (AList.update k v d) = map fst d"
proof -
  from assms have m: "k \<in> set (map fst d)" by (simp add: keys_ok_def)
  then show e: "map fst (AList.update k v d) = map fst d" by (simp add: update_keys)
  from assms(1) show "keys_ok K (AList.update k v d)" by (simp add: keys_ok_def e)
qed

lemma dict_of_keys_props:
  assumes "distinct (map fst d)"
  shows "distinct (map fst (dict_of_keys v ks d))
     \<and> set (map fst (dict_of_keys v ks d)) = set (map fst d) \<union> set ks
     \<and> (\<forall>k. map_of (dict_of_keys v ks d) k = (if k \<in> set ks then Some v else map_of d k))"
  using assms
proof (induction ks arbitrary: d)
  case Nil
  then show ?case by simp
next
  case (Cons k ks)
  have d: "distinct (map fst (AList.update k v d))" by (rule distinct_update [OF Cons.prems])
  have s: "set (map fst (AList.update k v d)) = insert k (set (map fst d))"
    using dom_update [of k v d] by simp
  from Cons.IH [OF d] s show ?case by (auto simp: update_conv')
qed

lemma position_total_zero:
  assumes "\<forall>k l. map_of d k = Some l \<longrightarrow> l ! p = 0" and "distinct (map fst d)"
  shows "position_total p d = (0::nat)"
proof -
  have "l ! p = 0" if "(k, l) \<in> set d" for k l
    using that assms by (metis map_of_is_SomeI)
  then have "\<forall>x \<in> set d. (case x of (k, l) \<Rightarrow> l ! p) = 0" by auto
  then show ?thesis unfolding position_total_def by (simp add: sum_list_eq_0_iff)
qed

lemma position_total_update:
  fixes d :: "(string \<times> nat list) list"
  assumes "distinct (map fst d)" and "map_of d k = Some l" and "pos < length l"
  shows "position_total p (AList.update k (l[pos := l ! pos + 1]) d)
           = position_total p d + (if p = pos then 1 else 0)"
  using assms
proof (induction d)
  case Nil
  then show ?case by simp
next
  case (Cons x d)
  obtain k' l' where x: "x = (k', l')" by (cases x)
  show ?case
  proof (cases "k' = k")
    case True
    with Cons.prems(2) x have "l' = l" by simp
    with True x Cons.prems(3) show ?thesis
      by (simp add: position_total_def nth_list_update)
  next
    case False
    with Cons.prems x have "distinct (map fst d)" "map_of d k = Some l" by simp_all
    from Cons.IH [OF this Cons.prems(3)] False x show ?thesis
      by (simp add: position_total_def)
  qed
qed

lemma sum_list_bump:
  fixes l :: "nat list"
  assumes "pos < length l"
  shows "sum_list (l[pos := l ! pos + 1]) = sum_list l + 1"
  using assms by (simp add: sum_list_update)

lemma record_positions_step:
  assumes "tally_ok K c" and "team t \<in> set K" and "pos < 10"
  shows "record_positions pos (t # rest) c = record_positions (Suc pos) rest (bump pos (team t) c)"
proof -
  from assms(1,2) obtain l where l: "map_of (position_counts c) (team t) = Some l"
    using keys_ok_lookup [of K "position_counts c" "team t"] by (auto simp: tally_ok_def)
  with assms(1) have "length l = 10" by (simp add: tally_ok_def)
  with assms(3) have p: "\<not> length l \<le> pos" by simp
  from assms(1,2) obtain q where q: "map_of (qualification_count c) (team t) = Some q"
    using keys_ok_lookup [of K "qualification_count c" "team t"] by (auto simp: tally_ok_def)
  show ?thesis
    by (simp add: l p q bump_def Let_def)
qed

lemma bump_props:
  assumes "tally_ok K c" and "k \<in> set K" and "pos < 10"
  shows "tally_ok K (bump pos k c)"
    and "map fst (position_counts (bump pos k c)) = map fst (position_counts c)"
    and "map fst (qualification_count (bump pos k c)) = map fst (qualification_count c)"
    and "position_total p (position_counts (bump pos k c))
           = position_total p (position_counts c) + (if p = pos then 1 else 0)"
    and "\<And>k' l. map_of (position_counts c) k' = Some l \<Longrightarrow>
           \<exists>l'. map_of (position_counts (bump pos k c)) k' = Some l'
              \<and> sum_list l' = sum_list l + (if k' = k then 1 else 0)"
    and "\<And>k' q. map_of (qualification_count c) k' = Some q \<Longrightarrow>
           map_of (qualification_count (bump pos k c)) k'
             = Some (q + (if pos < 4 \<and> k' = k then 1 else 0))"
proof -
  from assms(1) have kq: "keys_ok K (qualification_count c)" and kp: "keys_ok K (position_counts c)"
    and len: "\<And>k l. map_of (position_counts c) k = Some l \<Longrightarrow> length l = 10"
    by (simp_all add: tally_ok_def)
  from keys_ok_lookup [OF kp assms(2)] obtain l where l: "map_of (position_counts c) k = Some l"
    by blast
  with len have ll: "length l = 10" by simp
  with assms(3) have pl: "pos < length l" by simp
  from keys_ok_lookup [OF kq assms(2)] obtain q where q: "map_of (qualification_count c) k = Some q"
    by blast
  let ?l' = "l[pos := l ! pos + 1]"
  have pc: "position_counts (bump pos k c) = AList.update k ?l' (position_counts c)"
    by (simp add: bump_def l)
  have qc: "qualification_count (bump pos k c)
      = (if pos < 4 then AList.update k (q + 1) (qualification_count c) else qualification_count c)"
    by (simp add: bump_def q)
  show kp': "map fst (position_counts (bump pos k c)) = map fst (position_counts c)"
    unfolding pc by (rule keys_ok_update [OF kp assms(2)])
  show kq': "map fst (qualification_count (bump pos k c)) = map fst (qualification_count c)"
    unfolding qc using keys_ok_update(2) [OF kq assms(2)] by simp
  have len': "length l' = 10" if "map_of (position_counts (bump pos k c)) k' = Some l'" for k' l'
    using that len ll by (cases "k' = k") (auto simp: pc update_conv')
  from kp kq kp' kq' len' show "tally_ok K (bump pos k c)"
    by (simp add: tally_ok_def keys_ok_def)
  from kp have dp: "distinct (map fst (position_counts c))" by (simp add: keys_ok_def)
  show "position_total p (position_counts (bump pos k c))
           = position_total p (position_counts c) + (if p = pos then 1 else 0)"
    unfolding pc by (rule position_total_update [OF dp l pl])
  show "\<exists>l'. map_of (position_counts (bump pos k c)) k' = Some l'
              \<and> sum_list l' = sum_list l0 + (if k' = k then 1 else 0)"
    if "map_of (position_counts c) k' = Some l0" for k' l0
    using that l sum_list_bump [OF pl] by (cases "k' = k") (simp_all add: pc update_conv')
  show "map_of (qualification_count (bump pos k c)) k'
             = Some (q0 + (if pos < 4 \<and> k' = k then 1 else 0))"
    if "map_of (qualification_count c) k' = Some q0" for k' q0
    using that q by (cases "k' = k") (simp_all add: qc update_conv')
qed

lemma record_positions_counts:
  assumes "tally_ok K c" and "team ` set ts \<subseteq> set K" and "pos + length ts \<le> 10"
  shows "\<exists>c'. record_positions pos ts c = Inr c' \<and> tally_ok K c'
     \<and> map fst (position_counts c') = map fst (position_counts c)
     \<and> map fst (qualification_count c') = map fst (qualification_count c)
     \<and> (\<forall>p. position_total p (position_counts c')
            = position_total p (position_counts c)
              + (if pos \<le> p \<and> p < pos + length ts then 1 else 0))
     \<and> (\<forall>k l. map_of (position_counts c) k = Some l \<longrightarrow>
            (\<exists>l'. map_of (position_counts c') k = Some l'
               \<and> sum_list l' = sum_list l + count_list (map team ts) k))
     \<and> (\<forall>k q. map_of (qualification_count c) k = Some q \<longrightarrow>
            map_of (qualification_count c') k
              = Some (q + count_list (map team (take (4 - pos) ts)) k))"
  using assms
proof (induction ts arbitrary: pos c)
  case Nil
  then show ?case by simp
next
  case (Cons t rest)
  from Cons.prems have tk: "team t \<in> set K" and rk: "team ` set rest \<subseteq> set K"
    and p10: "pos < 10" and b: "Suc pos + length rest \<le> 10"
    by simp_all
  let ?c1 = "bump pos (team t) c"
  note bp = bump_props [OF Cons.prems(1) tk p10]
  from Cons.IH [OF bp(1) rk b] obtain c' where
    r: "record_positions (Suc pos) rest ?c1 = Inr c'" and ok: "tally_ok K c'"
    and kp: "map fst (position_counts c') = map fst (position_counts ?c1)"
    and kq: "map fst (qualification_count c') = map fst (qualification_count ?c1)"
    and pt: "\<forall>p. position_total p (position_counts c')
            = position_total p (position_counts ?c1)
              + (if Suc pos \<le> p \<and> p < Suc pos + length rest then 1 else 0)"
    and sm: "\<forall>k l. map_of (position_counts ?c1) k = Some l \<longrightarrow>
            (\<exists>l'. map_of (position_counts c') k = Some l'
               \<and> sum_list l' = sum_list l + count_list (map team rest) k)"
    and qm: "\<forall>k q. map_of (qualification_count ?c1) k = Some q \<longrightarrow>
            map_of (qualification_count c') k
              = Some (q + count_list (map team (take (4 - Suc pos) rest)) k)"
    by blast
  have 1: "record_positions pos (t # rest) c = Inr c'"
    using record_positions_step [OF Cons.prems(1) tk p10] r by simp
  have 2: "position_total p (position_counts c')
            = position_total p (position_counts c)
              + (if pos \<le> p \<and> p < pos + length (t # rest) then 1 else 0)" for p
    using pt bp(4) [of p] by auto
  have 3: "\<exists>l'. map_of (position_counts c') k = Some l'
               \<and> sum_list l' = sum_list l + count_list (map team (t # rest)) k"
    if "map_of (position_counts c) k = Some l" for k l
  proof -
    from bp(5) [OF that] obtain l1 where l1: "map_of (position_counts ?c1) k = Some l1"
      and s1: "sum_list l1 = sum_list l + (if k = team t then 1 else 0)" by blast
    from sm l1 obtain l' where "map_of (position_counts c') k = Some l'"
      and "sum_list l' = sum_list l1 + count_list (map team rest) k" by blast
    with s1 show ?thesis by auto
  qed
  have 4: "map_of (qualification_count c') k
              = Some (q + count_list (map team (take (4 - pos) (t # rest))) k)"
    if "map_of (qualification_count c) k = Some q" for k q
  proof -
    from bp(6) [OF that]
    have q1: "map_of (qualification_count ?c1) k = Some (q + (if pos < 4 \<and> k = team t then 1 else 0))" .
    with qm have e: "map_of (qualification_count c') k
       = Some (q + (if pos < 4 \<and> k = team t then 1 else 0)
            + count_list (map team (take (4 - Suc pos) rest)) k)" by blast
    show ?thesis
    proof (cases "pos < 4")
      case True
      then obtain m where m: "4 - pos = Suc m" by (cases "4 - pos") simp_all
      then have "4 - Suc pos = m" by simp
      with e True m show ?thesis by auto
    next
      case False
      with e show ?thesis by simp
    qed
  qed
  from 1 ok kp kq bp(2,3) 2 3 4 show ?case by (intro exI [of _ c']) (simp only:, blast)
qed

section \<open>Trials\<close>

lemma frame_mono: "frame n w w' \<Longrightarrow> m \<le> n \<Longrightarrow> frame m w w'"
  by (simp add: frame_def)

lemma insort_key_map:
  "map f (insort_key (\<lambda>a. k (f a)) x xs) = insort_key k (f x) (map f xs)"
  by (induction xs) simp_all

lemma sort_key_map: "map f (sort_key (\<lambda>a. k (f a)) xs) = sort_key k (map f xs)"
  by (induction xs) (simp_all add: insort_key_map)

lemma sorted_desc_map: "map f (sorted_desc (\<lambda>a. k (f a)) xs) = sorted_desc k (map f xs)"
  by (simp add: sorted_desc_def sort_key_map flip: rev_map)

lemma count_list_take_le: "count_list (take n xs) x \<le> count_list xs x"
proof -
  have "count_list (take n xs @ drop n xs) x = count_list (take n xs) x + count_list (drop n xs) x"
    by (rule count_list_append)
  then show ?thesis by simp
qed

lemma count_list_mset_eq: "mset xs = mset ys \<Longrightarrow> count_list xs x = count_list ys x"
  by (metis count_mset)

lemma trial_general:
  assumes v: "valid_refs sim w" and c: "clone_standings sim w = (refs, w1)"
    and t: "touches_only refs w1 w2"
  shows "frame (length (heap w)) w w2"
    and "valid_refs sim w2"
    and "map (\<lambda>a. heap w2 ! a) (standings sim) = map (\<lambda>a. heap w ! a) (standings sim)"
    and "map (\<lambda>b. team (heap w2 ! b)) refs = map (\<lambda>a. team (heap w ! a)) (standings sim)"
proof -
  note cp = clone_standings_props [OF c v]
  from cp(4) have fresh: "\<forall>b \<in> set refs. length (heap w) \<le> b" by simp
  have f2: "frame (length (heap w)) w1 w2" by (rule touches_only_frame [OF t fresh])
  show f: "frame (length (heap w)) w w2" by (rule frame_trans [OF cp(1) f2])
  from v f show "valid_refs sim w2" by (auto simp: valid_refs_def frame_def)
  from v f show "map (\<lambda>a. heap w2 ! a) (standings sim) = map (\<lambda>a. heap w ! a) (standings sim)"
    by (simp add: valid_refs_def frame_def)
  have "team (heap w2 ! b) = team (heap w1 ! b)" if "b \<in> set refs" for b
    using that cp(4) t by (simp add: touches_only_def)
  then have "map (\<lambda>b. team (heap w2 ! b)) refs = map (\<lambda>b. team (heap w1 ! b)) refs"
    by simp
  also have "\<dots> = map team (map (\<lambda>b. heap w1 ! b) refs)" by simp
  also have "\<dots> = map team (map (\<lambda>a. heap w ! a) (standings sim))" by (simp only: cp(3))
  finally show "map (\<lambda>b. team (heap w2 ! b)) refs = map (\<lambda>a. team (heap w ! a)) (standings sim)"
    by simp
qed

lemma trial_teams:
  assumes "map (\<lambda>b. team (h ! b)) refs = K"
  shows "mset (map team (map (\<lambda>a. h ! a) (sorted_desc key refs))) = mset K"
proof -
  have "mset (map (\<lambda>b. team (h ! b)) (sorted_desc key refs)) = mset (map (\<lambda>b. team (h ! b)) refs)"
    by (simp add: mset_sorted_desc)
  with assms show ?thesis by (simp add: comp_def)
qed

lemma simulate_trials_frame:
  "valid_refs sim w \<Longrightarrow> frame (length (heap w)) w (snd (simulate_trials sim rs use_elo n c w))"
proof (induction n arbitrary: c w)
  case 0
  show ?case by (simp add: frame_refl)
next
  case (Suc n)
  obtain refs w1 where cl: "clone_standings sim w = (refs, w1)"
    by (cases "clone_standings sim w")
  define w2 where "w2 = play_schedule sim rs use_elo refs (schedule sim) w1"
  have t: "touches_only refs w1 w2" unfolding w2_def by (rule play_schedule_touches)
  note tg = trial_general [OF Suc.prems cl t]
  define ts where "ts = map (\<lambda>a. heap w2 ! a) (sorted_desc (\<lambda>a. rank_key (heap w2 ! a)) refs)"
  show ?case
  proof (cases "record_positions 0 ts c")
    case (Inl e)
    then have "simulate_trials sim rs use_elo (Suc n) c w = (Inl e, w2)"
      by (simp add: cl w2_def ts_def Let_def)
    with tg(1) show ?thesis by simp
  next
    case (Inr c1)
    then have e: "simulate_trials sim rs use_elo (Suc n) c w = simulate_trials sim rs use_elo n c1 w2"
      by (simp add: cl w2_def ts_def Let_def)
    from tg(1) have "length (heap w) \<le> length (heap w2)" by (simp add: frame_def)
    with Suc.IH [OF tg(2), of c1] have "frame (length (heap w)) w2 (snd (simulate_trials sim rs use_elo n c1 w2))"
      by (rule frame_mono)
    with tg(1) show ?thesis unfolding e by (rule frame_trans)
  qed
qed

lemma current_table_frame:
  assumes "valid_refs sim w" and "frame (length (heap w)) w w'"
  shows "current_table sim w' = current_table sim w"
proof -
  from assms have "map (\<lambda>a. heap w' ! a) (standings sim) = map (\<lambda>a. heap w ! a) (standings sim)"
    by (simp add: valid_refs_def frame_def)
  then show ?thesis by (simp only: current_table_def)
qed

lemma simulate_trials_counts:
  assumes "valid_refs sim w" and "teams sim = extract_teams (heap w) (standings sim)"
    and "tally_ok (teams sim) c" and "length (standings sim) \<le> 10"
  shows "\<exists>c' w'. simulate_trials sim rs use_elo n c w = (Inr c', w') \<and> tally_ok (teams sim) c'
     \<and> (\<forall>p. position_total p (position_counts c')
            = position_total p (position_counts c) + (if p < length (standings sim) then n else 0))
     \<and> (\<forall>k l. map_of (position_counts c) k = Some l \<longrightarrow>
            (\<exists>l'. map_of (position_counts c') k = Some l'
               \<and> sum_list l' = sum_list l + n * count_list (teams sim) k))
     \<and> (\<forall>k q. map_of (qualification_count c) k = Some q \<longrightarrow>
            (\<exists>q'. map_of (qualification_count c') k = Some q' \<and> q \<le> q'
               \<and> q' \<le> q + n * count_list (teams sim) k
               \<and> (schedule sim = [] \<longrightarrow>
                    q' = q + n * count_list (map team (take 4 (current_table sim w))) k)))"
  using assms
proof (induction n arbitrary: c w)
  case 0
  then show ?case by simp
next
  case (Suc n)
  let ?K = "teams sim"
  let ?N = "length (standings sim)"
  obtain refs w1 where cl: "clone_standings sim w = (refs, w1)"
    by (cases "clone_standings sim w")
  define w2 where "w2 = play_schedule sim rs use_elo refs (schedule sim) w1"
  have t: "touches_only refs w1 w2" unfolding w2_def by (rule play_schedule_touches)
  note tg = trial_general [OF Suc.prems(1) cl t]
  define ts where "ts = map (\<lambda>a. heap w2 ! a) (sorted_desc (\<lambda>a. rank_key (heap w2 ! a)) refs)"
  from tg(4) Suc.prems(2) have ids: "map (\<lambda>b. team (heap w2 ! b)) refs = ?K"
    by (simp add: extract_teams_def)
  have ms: "mset (map team ts) = mset ?K" unfolding ts_def by (rule trial_teams [OF ids])
  then have st: "team ` set ts \<subseteq> set ?K" by (metis set_map set_mset_mset subset_refl)
  from ms have "length (map team ts) = length ?K" by (metis size_mset)
  with Suc.prems(2) have lt: "length ts = ?N" by (simp add: extract_teams_def)
  with Suc.prems(4) have b: "0 + length ts \<le> 10" by simp
  from record_positions_counts [OF Suc.prems(3) st b] obtain c1 where
    r: "record_positions 0 ts c = Inr c1" and ok1: "tally_ok ?K c1"
    and pt1: "\<forall>p. position_total p (position_counts c1)
            = position_total p (position_counts c) + (if 0 \<le> p \<and> p < 0 + length ts then 1 else 0)"
    and sm1: "\<forall>k l. map_of (position_counts c) k = Some l \<longrightarrow>
            (\<exists>l'. map_of (position_counts c1) k = Some l'
               \<and> sum_list l' = sum_list l + count_list (map team ts) k)"
    and qm1: "\<forall>k q. map_of (qualification_count c) k = Some q \<longrightarrow>
            map_of (qualification_count c1) k
              = Some (q + count_list (map team (take (4 - 0) ts)) k)"
    by blast
  have e: "simulate_trials sim rs use_elo (Suc n) c w = simulate_trials sim rs use_elo n c1 w2"
    using r by (simp add: cl w2_def ts_def Let_def)
  from tg(3) Suc.prems(2) have tm2: "teams sim = extract_teams (heap w2) (standings sim)"
    by (simp add: extract_teams_def)
  from Suc.IH [OF tg(2) tm2 ok1 Suc.prems(4)] obtain c' w' where
    s: "simulate_trials sim rs use_elo n c1 w2 = (Inr c', w')" and ok: "tally_ok ?K c'"
    and pt: "\<forall>p. position_total p (position_counts c')
            = position_total p (position_counts c1) + (if p < ?N then n else 0)"
    and sm: "\<forall>k l. map_of (position_counts c1) k = Some l \<longrightarrow>
            (\<exists>l'. map_of (position_counts c') k = Some l'
               \<and> sum_list l' = sum_list l + n * count_list ?K k)"
    and qm: "\<forall>k q. map_of (qualification_count c1) k = Some q \<longrightarrow>
            (\<exists>q'. map_of (qualification_count c') k = Some q' \<and> q \<le> q'
               \<and> q' \<le> q + n * count_list ?K k
               \<and> (schedule sim = [] \<longrightarrow>
                    q' = q + n * count_list (map team (take 4 (current_table sim w2))) k))"
    by blast
  have cnt: "count_list (map team ts) k = count_list ?K k" for k
    by (rule count_list_mset_eq [OF ms])
  have tab: "current_table sim w2 = current_table sim w"
    by (rule current_table_frame [OF Suc.prems(1) tg(1)])
  have ts_tab: "ts = current_table sim w" if "schedule sim = []"
  proof -
    from that have w21: "w2 = w1" by (simp add: w2_def)
    have "ts = sorted_desc rank_key (map (\<lambda>a. heap w2 ! a) refs)"
      unfolding ts_def by (rule sorted_desc_map)
    also have "map (\<lambda>a. heap w2 ! a) refs = map (\<lambda>a. heap w ! a) (standings sim)"
      unfolding w21 by (rule clone_standings_props(3) [OF cl Suc.prems(1)])
    finally show ?thesis by (simp add: current_table_def)
  qed
  have 1: "position_total p (position_counts c')
            = position_total p (position_counts c) + (if p < ?N then Suc n else 0)" for p
    using pt pt1 lt by simp
  have 2: "\<exists>l'. map_of (position_counts c') k = Some l'
               \<and> sum_list l' = sum_list l + Suc n * count_list ?K k"
    if "map_of (position_counts c) k = Some l" for k l
  proof -
    from sm1 that obtain l1 where l1: "map_of (position_counts c1) k = Some l1"
      and s1: "sum_list l1 = sum_list l + count_list (map team ts) k" by blast
    from sm l1 obtain l' where "map_of (position_counts c') k = Some l'"
      and "sum_list l' = sum_list l1 + n * count_list ?K k" by blast
    with s1 cnt show ?thesis by simp
  qed
  have 3: "\<exists>q'. map_of (qualification_count c') k = Some q' \<and> q \<le> q'
               \<and> q' \<le> q + Suc n * count_list ?K k
               \<and> (schedule sim = [] \<longrightarrow>
                    q' = q + Suc n * count_list (map team (take 4 (current_table sim w))) k)"
    if "map_of (qualification_count c) k = Some q" for k q
  proof -
    let ?d = "count_list (map team (take 4 ts)) k"
    from qm1 that have q1: "map_of (qualification_count c1) k = Some (q + ?d)" by simp
    from qm q1 obtain q' where q': "map_of (qualification_count c') k = Some q'"
      and lo: "q + ?d \<le> q'" and hi: "q' \<le> q + ?d + n * count_list ?K k"
      and ex: "schedule sim = [] \<longrightarrow>
                    q' = q + ?d + n * count_list (map team (take 4 (current_table sim w2))) k"
      by blast
    have "?d \<le> count_list (map team ts) k"
      unfolding take_map [symmetric] by (rule count_list_take_le)
    with cnt have dle: "?d \<le> count_list ?K k" by simp
    from lo have a: "q \<le> q'" by simp
    from hi dle have b: "q' \<le> q + Suc n * count_list ?K k" by simp
    have c: "q' = q + Suc n * count_list (map team (take 4 (current_table sim w))) k"
      if "schedule sim = []"
      using ex that ts_tab [OF that] tab by simp
    from q' a b c show ?thesis by blast
  qed
  from s ok 1 2 3 show ?case unfolding e by blast
qed

section \<open>The aggregator\<close>

lemma initial_tally_props:
  shows "tally_ok (teams sim) (initial_tally sim)"
    and "\<And>k. k \<in> set (teams sim) \<Longrightarrow> map_of (qualification_count (initial_tally sim)) k = Some 0"
    and "\<And>k. k \<in> set (teams sim) \<Longrightarrow>
           map_of (position_counts (initial_tally sim)) k = Some [0, 0, 0, 0, 0, 0, 0, 0, 0, 0]"
    and "\<And>p. p < 10 \<Longrightarrow> position_total p (position_counts (initial_tally sim)) = 0"
proof -
  let ?z = "[0, 0, 0, 0, 0, 0, 0, 0, 0, 0] :: nat list"
  have e: "distinct (map fst ([] :: (string \<times> 'v) list))" by simp
  note q = dict_of_keys_props [OF e, of "0::nat" "teams sim"]
  note p = dict_of_keys_props [OF e, of ?z "teams sim"]
  have qc: "qualification_count (initial_tally sim) = dict_of_keys 0 (teams sim) []"
    and pc: "position_counts (initial_tally sim) = dict_of_keys ?z (teams sim) []"
    by (simp_all add: initial_tally_def)
  show "map_of (qualification_count (initial_tally sim)) k = Some 0" if "k \<in> set (teams sim)" for k
    using q that by (simp add: qc)
  show "map_of (position_counts (initial_tally sim)) k = Some ?z" if "k \<in> set (teams sim)" for k
    using p that by (simp add: pc)
  have len: "length l = 10" if "map_of (position_counts (initial_tally sim)) k = Some l" for k l
  proof -
    from that p have "l = ?z" unfolding pc by (metis option.distinct(1) option.inject map_of.simps(1))
    then show ?thesis by simp
  qed
  from q p len show "tally_ok (teams sim) (initial_tally sim)"
    by (simp add: tally_ok_def keys_ok_def qc pc)
  show "position_total p (position_counts (initial_tally sim)) = 0" if "p < 10" for p
  proof (rule position_total_zero)
    show "distinct (map fst (position_counts (initial_tally sim)))" using p by (simp add: pc)
    show "\<forall>k l. map_of (position_counts (initial_tally sim)) k = Some l \<longrightarrow> l ! p = 0"
    proof (intro allI impI)
      fix k l assume "map_of (position_counts (initial_tally sim)) k = Some l"
      with p have "l = ?z" unfolding pc by (metis option.distinct(1) option.inject map_of.simps(1))
      moreover have "?z ! p = 0" using that by (simp add: nth_Cons split: nat.splits)
      ultimately show "l ! p = 0" by simp
    qed
  qed
qed

lemma probabilities_props:
  assumes "tally_ok K c" and "set ks \<subseteq> set K" and "0 < n"
    and "distinct (map fst (qualification_probability res))"
    and "distinct (map fst (position_probability res))"
  shows "\<exists>res'. probabilities ks n c res = Inr res'
     \<and> distinct (map fst (qualification_probability res'))
     \<and> distinct (map fst (position_probability res'))
     \<and> set (map fst (qualification_probability res'))
         = set (map fst (qualification_probability res)) \<union> set ks
     \<and> set (map fst (position_probability res'))
         = set (map fst (position_probability res)) \<union> set ks
     \<and> (\<forall>k. map_of (qualification_probability res') k
            = (if k \<in> set ks
               then map_option (\<lambda>q. real q / real n) (map_of (qualification_count c) k)
               else map_of (qualification_probability res) k))
     \<and> (\<forall>k. map_of (position_probability res') k
            = (if k \<in> set ks
               then map_option (map (\<lambda>x. real x / real n)) (map_of (position_counts c) k)
               else map_of (position_probability res) k))"
  using assms(2,4,5)
proof (induction ks arbitrary: res)
  case Nil
  then show ?case by simp
next
  case (Cons t rest)
  from Cons.prems(1) have tk: "t \<in> set K" and rk: "set rest \<subseteq> set K" by simp_all
  from assms(1) tk obtain q where q: "map_of (qualification_count c) t = Some q"
    using keys_ok_lookup [of K "qualification_count c" t] by (auto simp: tally_ok_def)
  from assms(1) tk obtain l where l: "map_of (position_counts c) t = Some l"
    using keys_ok_lookup [of K "position_counts c" t] by (auto simp: tally_ok_def)
  define res1 where "res1 = res\<lparr>qualification_probability :=
        AList.update t (real q / real n) (qualification_probability res),
      position_probability :=
        AList.update t (map (\<lambda>count. real count / real n) l) (position_probability res)\<rparr>"
  have e: "probabilities (t # rest) n c res = probabilities rest n c res1"
    using assms(3) by (simp add: q l res1_def)
  have qp1: "qualification_probability res1
      = AList.update t (real q / real n) (qualification_probability res)"
    and pp1: "position_probability res1
      = AList.update t (map (\<lambda>count. real count / real n) l) (position_probability res)"
    by (simp_all add: res1_def)
  have d1: "distinct (map fst (qualification_probability res1))"
    unfolding qp1 by (rule distinct_update [OF Cons.prems(2)])
  have d2: "distinct (map fst (position_probability res1))"
    unfolding pp1 by (rule distinct_update [OF Cons.prems(3)])
  have s1: "set (map fst (qualification_probability res1))
      = insert t (set (map fst (qualification_probability res)))"
    unfolding qp1 using dom_update [of t _ "qualification_probability res"] by simp
  have s2: "set (map fst (position_probability res1))
      = insert t (set (map fst (position_probability res)))"
    unfolding pp1 using dom_update [of t _ "position_probability res"] by simp
  from Cons.IH [OF rk d1 d2] obtain res' where
    r: "probabilities rest n c res1 = Inr res'"
    and dq: "distinct (map fst (qualification_probability res'))"
    and dp: "distinct (map fst (position_probability res'))"
    and sq: "set (map fst (qualification_probability res'))
         = set (map fst (qualification_probability res1)) \<union> set rest"
    and sp: "set (map fst (position_probability res'))
         = set (map fst (position_probability res1)) \<union> set rest"
    and mq: "\<forall>k. map_of (qualification_probability res') k
            = (if k \<in> set rest
               then map_option (\<lambda>q. real q / real n) (map_of (qualification_count c) k)
               else map_of (qualification_probability res1) k)"
    and mp: "\<forall>k. map_of (position_probability res') k
            = (if k \<in> set rest
               then map_option (map (\<lambda>x. real x / real n)) (map_of (position_counts c) k)
               else map_of (position_probability res1) k)"
    by blast
  have 1: "set (map fst (qualification_probability res'))
         = set (map fst (qualification_probability res)) \<union> set (t # rest)"
    using sq s1 by auto
  have 2: "set (map fst (position_probability res'))
         = set (map fst (position_probability res)) \<union> set (t # rest)"
    using sp s2 by auto
  have 3: "map_of (qualification_probability res') k
            = (if k \<in> set (t # rest)
               then map_option (\<lambda>q. real q / real n) (map_of (qualification_count c) k)
               else map_of (qualification_probability res) k)" for k
    using mq q by (simp add: qp1 update_conv')
  have 4: "map_of (position_probability res') k
            = (if k \<in> set (t # rest)
               then map_option (map (\<lambda>x. real x / real n)) (map_of (position_counts c) k)
               else map_of (position_probability res) k)" for k
    using mp l by (simp add: pp1 update_conv')
  from r dq dp 1 2 3 4 show ?case unfolding e by blast
qed

lemma run_simulation_world:
  "snd (run_simulation sim rs iterations use_elo w)
     = snd (simulate_trials sim rs use_elo iterations (initial_tally sim) w)"
proof -
  obtain r w' where s: "simulate_trials sim rs use_elo iterations (initial_tally sim) w = (r, w')"
    by (cases "simulate_trials sim rs use_elo iterations (initial_tally sim) w")
  show ?thesis by (cases r) (simp_all add: run_simulation_def s)
qed

lemma run_simulation_result:
  assumes "valid_refs sim w" and "teams sim = extract_teams (heap w) (standings sim)"
    and "length (standings sim) \<le> 10" and "0 < n"
  shows "\<exists>c w' res. simulate_trials sim rs use_elo n (initial_tally sim) w = (Inr c, w')
     \<and> run_simulation sim rs n use_elo w = (Inr res, w')
     \<and> tally_ok (teams sim) c
     \<and> distinct (map fst (qualification_probability res))
     \<and> distinct (map fst (position_probability res))
     \<and> set (map fst (qualification_probability res)) = set (teams sim)
     \<and> set (map fst (position_probability res)) = set (teams sim)
     \<and> (\<forall>k \<in> set (teams sim). map_of (qualification_probability res) k
            = map_option (\<lambda>q. real q / real n) (map_of (qualification_count c) k))
     \<and> (\<forall>k \<in> set (teams sim). map_of (position_probability res) k
            = map_option (map (\<lambda>x. real x / real n)) (map_of (position_counts c) k))"
proof -
  from simulate_trials_counts [OF assms(1,2) initial_tally_props(1) assms(3), of rs use_elo n]
  obtain c w' where s: "simulate_trials sim rs use_elo n (initial_tally sim) w = (Inr c, w')"
    and ok: "tally_ok (teams sim) c" by blast
  let ?r0 = "\<lparr>qualification_probability = [], position_probability = []\<rparr>"
  have "\<exists>res. probabilities (teams sim) n c ?r0 = Inr res
     \<and> distinct (map fst (qualification_probability res))
     \<and> distinct (map fst (position_probability res))
     \<and> set (map fst (qualification_probability res))
         = set (map fst (qualification_probability ?r0)) \<union> set (teams sim)
     \<and> set (map fst (position_probability res))
         = set (map fst (position_probability ?r0)) \<union> set (teams sim)
     \<and> (\<forall>k. map_of (qualification_probability res) k
            = (if k \<in> set (teams sim)
               then map_option (\<lambda>q. real q / real n) (map_of (qualification_count c) k)
               else map_of (qualification_probability ?r0) k))
     \<and> (\<forall>k. map_of (position_probability res) k
            = (if k \<in> set (teams sim)
               then map_option (map (\<lambda>x. real x / real n)) (map_of (position_counts c) k)
               else map_of (position_probability ?r0) k))"
    by (rule probabilities_props [OF ok _ assms(4)]) simp_all
  then obtain res where p: "probabilities (teams sim) n c ?r0 = Inr res"
    and dq: "distinct (map fst (qualification_probability res))"
    and dp: "distinct (map fst (position_probability res))"
    and sq: "set (map fst (qualification_probability res)) = set (teams sim)"
    and sp: "set (map fst (position_probability res)) = set (teams sim)"
    and mq: "\<forall>k \<in> set (teams sim). map_of (qualification_probability res) k
            = map_option (\<lambda>q. real q / real n) (map_of (qualification_count c) k)"
    and mp: "\<forall>k \<in> set (teams sim). map_of (position_probability res) k
            = map_option (map (\<lambda>x. real x / real n)) (map_of (position_counts c) k)"
    by auto
  have "run_simulation sim rs n use_elo w = (Inr res, w')"
    by (simp add: run_simulation_def s p)
  with s ok dq dp sq sp mq mp show ?thesis by blast
qed

text \<open>
  C8: \<open>run_simulation\<close> never mutates the standings it was constructed with: after any
  number of trials, whether the run returns a result or raises, every cell the store held
  before the run (in particular every entry of the standings, with all its fields) is unchanged,
  and so is the rating mapping.
\<close>

theorem run_simulation_frame:
  assumes "valid_refs sim w"
  shows "case run_simulation sim rs iterations use_elo w of (result, w') \<Rightarrow>
           (\<forall>a \<in> set (standings sim). heap w' ! a = heap w ! a)
           \<and> (\<forall>i < length (heap w). heap w' ! i = heap w ! i)
           \<and> elo_ratings w' = elo_ratings w"
proof -
  obtain result w' where r: "run_simulation sim rs iterations use_elo w = (result, w')"
    by (cases "run_simulation sim rs iterations use_elo w")
  from simulate_trials_frame [OF assms, of rs use_elo iterations "initial_tally sim"]
  have f: "frame (length (heap w)) w w'"
    using run_simulation_world [of sim rs iterations use_elo w] r by simp
  then have 1: "\<forall>i < length (heap w). heap w' ! i = heap w ! i" and 2: "elo_ratings w' = elo_ratings w"
    by (simp_all add: frame_def)
  from 1 assms have "\<forall>a \<in> set (standings sim). heap w' ! a = heap w ! a"
    by (simp add: valid_refs_def)
  with 1 2 show ?thesis by (simp add: r)
qed

text \<open>
  C1 (as amended): for standings of at most ten entries and at least one trial,
  \<open>run_simulation\<close> returns a position-probability vector of length 10 for every team,
  whatever the league size.
\<close>

theorem position_vector_length:
  assumes "valid_refs sim w" and "teams sim = extract_teams (heap w) (standings sim)"
    and "length (standings sim) \<le> 10" and "0 < iterations"
  shows "\<exists>res w'. run_simulation sim rs iterations use_elo w = (Inr res, w')
     \<and> set (map fst (position_probability res)) = set (teams sim)
     \<and> (\<forall>(k, l) \<in> set (position_probability res). length l = 10)"
proof -
  from run_simulation_result [OF assms, of rs use_elo]
  obtain c w' res where r: "run_simulation sim rs iterations use_elo w = (Inr res, w')"
    and ok: "tally_ok (teams sim) c"
    and dp: "distinct (map fst (position_probability res))"
    and sp: "set (map fst (position_probability res)) = set (teams sim)"
    and mp: "\<forall>k \<in> set (teams sim). map_of (position_probability res) k
            = map_option (map (\<lambda>x. real x / real iterations)) (map_of (position_counts c) k)"
    by blast
  have "length l = 10" if "(k, l) \<in> set (position_probability res)" for k l
  proof -
    from that dp have m: "map_of (position_probability res) k = Some l" by simp
    from that sp have "k \<in> set (teams sim)" by force
    with mp m obtain l0 where l0: "map_of (position_counts c) k = Some l0"
      and l: "l = map (\<lambda>x. real x / real iterations) l0" by auto
    from ok l0 have "length l0 = 10" by (simp add: tally_ok_def)
    with l show ?thesis by simp
  qed
  with r sp show ?thesis by blast
qed

lemma sample_keys:
  "rank_key t1 = (14, 1/2)" "rank_key t2 = (12, 3/10)" "rank_key t3 = (12, 1/10)"
  "rank_key t4 = (10, 1/5)" "rank_key t5 = (8, - (2/5))"
  by (simp_all add: rank_key_def t1_def t2_def t3_def t4_def t5_def)

lemma sample_teams:
  "team t1 = ''GT''" "team t2 = ''CSK''" "team t3 = ''MI''" "team t4 = ''RCB''" "team t5 = ''KKR''"
  by (simp_all add: t1_def t2_def t3_def t4_def t5_def)





lemma league5_wellformed:
  "valid_refs league5 world5"
  "teams league5 = extract_teams (heap world5) (standings league5)"
  "distinct (teams league5)"
  "length (standings league5) = 5"
  "schedule league5 = []"
  by (simp_all add: valid_refs_def league5_def world5_def MonteCarloSimulator_def
      extract_teams_def sample_teams)

lemma league5_fixture_wellformed:
  "valid_refs league5_fixture world5"
  "teams league5_fixture = extract_teams (heap world5) (standings league5_fixture)"
  "distinct (teams league5_fixture)"
  "length (standings league5_fixture) = 5"
  by (simp_all add: valid_refs_def league5_fixture_def world5_def MonteCarloSimulator_def
      extract_teams_def sample_teams)

theorem run_simulation_frame_witness:
  "valid_refs league5_fixture world5 \<and>
   (case run_simulation league5_fixture fixed_source 2 True world5 of (result, w') \<Rightarrow>
      (\<forall>a \<in> set (standings league5_fixture). heap w' ! a = heap world5 ! a)
      \<and> (\<forall>i < length (heap world5). heap w' ! i = heap world5 ! i)
      \<and> elo_ratings w' = elo_ratings world5)"
  using league5_fixture_wellformed(1)
    run_simulation_frame [OF league5_fixture_wellformed(1), of fixed_source 2 True]
  by (rule conjI)

theorem position_vector_length_witness:
  "length (standings league5) \<le> 10 \<and>
   (\<exists>res w'. run_simulation league5 fixed_source 1 False world5 = (Inr res, w')
     \<and> set (map fst (position_probability res)) = set (teams league5)
     \<and> (\<forall>(k, l) \<in> set (position_probability res). length l = 10))"
  using position_vector_length [OF league5_wellformed(1,2), of 1 fixed_source False]
  by (simp add: league5_wellformed(4))

text \<open>
  On the sample table of five teams every position-probability vector has length 10, not 5.
\<close>

theorem position_vector_length_counterexample:
  "fst (run_simulation league5 fixed_source 1 False world5) = Inr simulated5
   \<and> map (\<lambda>(k, l). length l) (position_probability simulated5) = [10, 10, 10, 10, 10]
   \<and> length (standings league5) = 5"
  by (simp add: run_simulation_def league5_def world5_def MonteCarloSimulator_def extract_teams_def
      initial_tally_def clone_standings_def sorted_desc_def sample_keys sample_teams Let_def
      numeral_nat simulated5_def)




section \<open>The path to the playoffs\<close>





















end
